theory Spec2Isabelle
  imports Main "HOL-Library.Word"
begin

unbundle bit_operations_syntax

section \<open>The UART-lite register block\<close>

text \<open>
  \<^verbatim>\<open>source/hello_world_test/main.c\<close> drives a UART-lite through the struct
  \<^verbatim>\<open>uartlite_s\<close>: four 32-bit words \<^verbatim>\<open>rx_fifo\<close>, \<^verbatim>\<open>tx_fifo\<close>, \<^verbatim>\<open>status\<close> and
  \<^verbatim>\<open>control\<close>, the last two overlaid with one-bit fields. The members fall in two
  groups by their qualifiers.

  \<^item> \<^verbatim>\<open>rx_fifo\<close>, \<^verbatim>\<open>status\<close> and the status bit-fields are \<^verbatim>\<open>const volatile\<close>: the
    program only reads them and the hardware alone changes them. What the program sees
    there is given by a device trace: \<open>dev t\<close> holds the two words at step \<open>t\<close>.
  \<^item> \<^verbatim>\<open>tx_fifo\<close>, \<^verbatim>\<open>control\<close> and the control bit-fields are \<^verbatim>\<open>volatile\<close> only: the
    program stores to them. The state keeps the word last stored to each, which is what
    the device has received. A store to a bit-field of \<^verbatim>\<open>control\<close> first loads the word
    from the device, and the device decides what that load returns: a register that can be
    read back returns the word last stored, a write-only one does not. What a load of
    \<^verbatim>\<open>control\<close> returns, given the word last stored, is a parameter \<open>rb\<close> of the functions
    that store to a bit-field.

  A step of the trace is one poll of the device: each evaluation of a busy-wait
  condition reads \<^verbatim>\<open>status\<close> afresh, at the next step. The access that a successful poll
  lets through (the store to \<^verbatim>\<open>tx_fifo\<close>, the load of \<^verbatim>\<open>rx_fifo\<close>) belongs to the step
  of that poll: the two data registers are the ends of FIFOs, which on the program's side
  move only when the program accesses them, so the data access meets the device as the
  poll saw it. The poll after that sees the next step. Every access is recorded, in
  program order, with the step it belongs to: a bit-field store to \<^verbatim>\<open>control\<close> as the
  load of the whole word and the write of the whole word that it is.

  Bit-fields are allocated from the least significant bit in declaration order, so
  \<^verbatim>\<open>rx_valid\<close> is bit 0 and \<^verbatim>\<open>tx_full\<close> bit 3 of \<^verbatim>\<open>status\<close>, and \<^verbatim>\<open>tx_reset\<close>,
  \<^verbatim>\<open>rx_reset\<close>, \<^verbatim>\<open>intr_enable\<close> are bits 0, 1 and 4 of \<^verbatim>\<open>control\<close> (two unnamed
  bits lie between).
\<close>

type_synonym u32 = "32 word"

text \<open>A C \<^verbatim>\<open>char\<close>: eight bits. Whether plain \<^verbatim>\<open>char\<close> is signed is left to the
  platform, and is a parameter \<open>sc\<close> of every function that widens one.\<close>

type_synonym cchar = "8 word"

datatype reg = RX_FIFO | TX_FIFO | STATUS | CONTROL

datatype access = Read reg | Write reg u32

type_synonym event = "nat \<times> access"

record hw_regs =
  rx_fifo :: u32
  status :: u32

type_synonym trace = "nat \<Rightarrow> hw_regs"

text \<open>What a load of \<^verbatim>\<open>control\<close> returns, from the word last stored to it.\<close>

type_synonym readback = "u32 \<Rightarrow> u32"

record uart_state =
  tx_fifo :: u32
  control :: u32
  clock :: nat
  accesses :: "event list"

definition rx_valid :: "hw_regs \<Rightarrow> bool" where
  "rx_valid r = bit (status r) 0"

definition rx_full :: "hw_regs \<Rightarrow> bool" where
  "rx_full r = bit (status r) 1"

definition tx_empty :: "hw_regs \<Rightarrow> bool" where
  "tx_empty r = bit (status r) 2"

definition tx_full :: "hw_regs \<Rightarrow> bool" where
  "tx_full r = bit (status r) 3"

definition intr_enabled :: "hw_regs \<Rightarrow> bool" where
  "intr_enabled r = bit (status r) 4"

definition overrun :: "hw_regs \<Rightarrow> bool" where
  "overrun r = bit (status r) 5"

definition frame :: "hw_regs \<Rightarrow> bool" where
  "frame r = bit (status r) 6"

definition parity :: "hw_regs \<Rightarrow> bool" where
  "parity r = bit (status r) 7"

definition tx_reset :: nat where
  "tx_reset = 0"

definition rx_reset :: nat where
  "rx_reset = 1"

definition intr_enable :: nat where
  "intr_enable = 4"

text \<open>Recording an access at the current step, and moving on to the next step.\<close>

definition log_access :: "access \<Rightarrow> uart_state \<Rightarrow> uart_state" where
  "log_access a s = s\<lparr>accesses := accesses s @ [(clock s, a)]\<rparr>"

definition tick :: "uart_state \<Rightarrow> uart_state" where
  "tick s = s\<lparr>clock := Suc (clock s)\<rparr>"

text \<open>A store to a one-bit field of \<^verbatim>\<open>control\<close>, as in \<^verbatim>\<open>uart->tx_reset = 1\<close>: the word
  is loaded from the device, the bit takes the value in the word loaded, the other bits
  stay as loaded, and the word is stored.\<close>

definition store_control :: "readback \<Rightarrow> nat \<Rightarrow> bool \<Rightarrow> uart_state \<Rightarrow> uart_state" where
  "store_control rb p v s =
     (let old = rb (control s);
          w = (if v then set_bit p old else unset_bit p old)
      in log_access (Write CONTROL w) ((log_access (Read CONTROL) s)\<lparr>control := w\<rparr>))"

text \<open>A store to \<^verbatim>\<open>tx_fifo\<close>.\<close>

definition store_tx_fifo :: "u32 \<Rightarrow> uart_state \<Rightarrow> uart_state" where
  "store_tx_fifo w s = log_access (Write TX_FIFO w) (s\<lparr>tx_fifo := w\<rparr>)"

text \<open>The conversion of a \<^verbatim>\<open>char\<close> to \<^verbatim>\<open>uint32_t\<close> in \<^verbatim>\<open>uart->tx_fifo = c\<close>: sign
  extension when \<^verbatim>\<open>char\<close> is signed, zero extension when it is not.\<close>

definition char_to_u32 :: "bool \<Rightarrow> cchar \<Rightarrow> u32" where
  "char_to_u32 sc c = (if sc then scast c else ucast c)"

section \<open>The driver\<close>

text \<open>\<^verbatim>\<open>reset_uartlite\<close>: three bit-field stores, each a load and a store of
  \<^verbatim>\<open>control\<close>.\<close>

definition reset_uartlite :: "readback \<Rightarrow> uart_state \<Rightarrow> uart_state" where
  "reset_uartlite rb s =
     store_control rb intr_enable False
       (store_control rb rx_reset True
         (store_control rb tx_reset True s))"

text \<open>\<^verbatim>\<open>putc_uartlite\<close>: \<^verbatim>\<open>while (uart->tx_full);\<close> then \<^verbatim>\<open>uart->tx_fifo = c\<close>. The loop
  has no bound, so the function is partial: \<open>None\<close> is a call that never returns.\<close>

partial_function (option) putc_uartlite ::
  "bool \<Rightarrow> trace \<Rightarrow> cchar \<Rightarrow> uart_state \<Rightarrow> uart_state option" where
  "putc_uartlite sc dev c s =
     (if tx_full (dev (clock s))
      then putc_uartlite sc dev c (tick (log_access (Read STATUS) s))
      else Some (tick (store_tx_fifo (char_to_u32 sc c) (log_access (Read STATUS) s))))"

declare putc_uartlite.simps [code]

text \<open>\<^verbatim>\<open>getc_uartlite\<close>: \<^verbatim>\<open>while (!uart->rx_valid);\<close> then
  \<^verbatim>\<open>return (char)uart->rx_fifo\<close>, which keeps the low eight bits.\<close>

partial_function (option) getc_uartlite ::
  "trace \<Rightarrow> uart_state \<Rightarrow> (cchar \<times> uart_state) option" where
  "getc_uartlite dev s =
     (if \<not> rx_valid (dev (clock s))
      then getc_uartlite dev (tick (log_access (Read STATUS) s))
      else Some (ucast (rx_fifo (dev (clock s))),
                 tick (log_access (Read RX_FIFO) (log_access (Read STATUS) s))))"

declare getc_uartlite.simps [code]

text \<open>\<^verbatim>\<open>puts_uartlite\<close>: \<^verbatim>\<open>for (pc = str; *pc; pc++) putc_uartlite(uart, *pc)\<close>. The
  argument is the array that \<^verbatim>\<open>str\<close> points into, from \<^verbatim>\<open>str\<close> to its end. Reading
  \<^verbatim>\<open>*pc\<close> past the end of the array is a fault; it happens when the array holds no
  zero byte.\<close>

datatype fault = Out_of_bounds

fun puts_uartlite ::
  "bool \<Rightarrow> trace \<Rightarrow> cchar list \<Rightarrow> uart_state \<Rightarrow> (fault + uart_state) option" where
  "puts_uartlite sc dev [] s = Some (Inl Out_of_bounds)"
| "puts_uartlite sc dev (b # bs) s =
     (if b = 0 then Some (Inr s)
      else case putc_uartlite sc dev b s of
             None \<Rightarrow> None
           | Some s' \<Rightarrow> puts_uartlite sc dev bs s')"

text \<open>\<^verbatim>\<open>static char const hello_world[] = "Hello, World!\r\n"\<close>: fifteen characters and
  the terminator.\<close>

definition hello_world :: "cchar list" where
  "hello_world =
     [0x48, 0x65, 0x6C, 0x6C, 0x6F, 0x2C, 0x20, 0x57, 0x6F, 0x72, 0x6C, 0x64, 0x21,
      0x0D, 0x0A, 0x00]"

text \<open>\<^verbatim>\<open>main\<close>: \<^verbatim>\<open>reset_uartlite\<close>, then \<^verbatim>\<open>while(1) puts_uartlite(uartlite, hello_world)\<close>.
  The loop has no exit and \<^verbatim>\<open>main\<close> never returns, so what can be observed of it is
  the state after each number of rounds: \<open>main_loop sc dev n s\<close> is the state once the
  loop has gone round \<open>n\<close> times from \<open>s\<close> (\<open>None\<close> when a \<^verbatim>\<open>putc_uartlite\<close> on the way
  never returns).\<close>

fun main_loop ::
  "bool \<Rightarrow> trace \<Rightarrow> nat \<Rightarrow> uart_state \<Rightarrow> (fault + uart_state) option" where
  "main_loop sc dev 0 s = Some (Inr s)"
| "main_loop sc dev (Suc n) s =
     (case puts_uartlite sc dev hello_world s of
        None \<Rightarrow> None
      | Some (Inl e) \<Rightarrow> Some (Inl e)
      | Some (Inr s') \<Rightarrow> main_loop sc dev n s')"

definition main ::
  "bool \<Rightarrow> readback \<Rightarrow> trace \<Rightarrow> nat \<Rightarrow> uart_state \<Rightarrow> (fault + uart_state) option" where
  "main sc rb dev n s = main_loop sc dev n (reset_uartlite rb s)"

section \<open>Reading the record of accesses\<close>

text \<open>The stores to one register among a list of accesses, each with its step.\<close>

fun writes_to :: "reg \<Rightarrow> event list \<Rightarrow> (nat \<times> u32) list" where
  "writes_to r [] = []"
| "writes_to r ((t, Write r' v) # es) =
     (if r' = r then (t, v) # writes_to r es else writes_to r es)"
| "writes_to r ((t, Read r') # es) = writes_to r es"

text \<open>The steps of the loads of one register among a list of accesses.\<close>

fun reads_of :: "reg \<Rightarrow> event list \<Rightarrow> nat list" where
  "reads_of r [] = []"
| "reads_of r ((t, Read r') # es) =
     (if r' = r then t # reads_of r es else reads_of r es)"
| "reads_of r ((t, Write r' v) # es) = reads_of r es"

text \<open>Two device traces that differ at most in the \<^verbatim>\<open>overrun\<close>, \<^verbatim>\<open>frame\<close> and
  \<^verbatim>\<open>parity\<close> bits of \<^verbatim>\<open>status\<close>: the mask \<open>0xFFFFFF1F\<close> keeps every bit of a word but
  bits 5, 6 and 7.\<close>

definition same_but_errors :: "trace \<Rightarrow> trace \<Rightarrow> bool" where
  "same_but_errors dev dev' =
     (\<forall>t. rx_fifo (dev t) = rx_fifo (dev' t) \<and>
          status (dev t) AND 0xFFFFFF1F = status (dev' t) AND 0xFFFFFF1F)"

section \<open>Some devices\<close>

text \<open>A state to start from, one with a stale control word, and device traces: one whose
  transmitter is always free, one that stays full, one that is full for two steps, one whose receiver has nothing for two
  steps and then holds \<open>0x123456C3\<close>, one that never receives, and the trace that is full
  for two steps again with error bits raised.\<close>

definition power_on :: uart_state where
  "power_on = \<lparr>tx_fifo = 0, control = 0, clock = 0, accesses = []\<rparr>"

definition stale :: uart_state where
  "stale = \<lparr>tx_fifo = 0, control = 0xFFFFFFFC, clock = 0, accesses = []\<rparr>"

text \<open>A \<^verbatim>\<open>control\<close> register that reads back the word last stored, and a write-only one
  that reads as zero.\<close>

definition mirror :: readback where
  "mirror = (\<lambda>w. w)"

definition reads_zero :: readback where
  "reads_zero = (\<lambda>w. 0)"

definition idle :: trace where
  "idle = (\<lambda>t. \<lparr>rx_fifo = 0, status = 0x04\<rparr>)"

definition stuck_full :: trace where
  "stuck_full = (\<lambda>t. \<lparr>rx_fifo = 0, status = 0x08\<rparr>)"

definition busy_twice :: trace where
  "busy_twice = (\<lambda>t. \<lparr>rx_fifo = 0x123456C3, status = (if t < 2 then 0x08 else 0x05)\<rparr>)"

definition late_byte :: trace where
  "late_byte = (\<lambda>t. if t < 2 then \<lparr>rx_fifo = 0x58, status = 0x04\<rparr>
                     else \<lparr>rx_fifo = 0x123456C3, status = 0x05\<rparr>)"

definition never_valid :: trace where
  "never_valid = (\<lambda>t. \<lparr>rx_fifo = 0x41, status = 0x04\<rparr>)"

definition line_errors :: trace where
  "line_errors = (\<lambda>t. \<lparr>rx_fifo = 0x123456C3, status = (if t < 2 then 0xE8 else 0xA5)\<rparr>)"

section \<open>Reset\<close>

lemma store_control_simps:
  "control (store_control rb p v s) =
     (if v then set_bit p (rb (control s)) else unset_bit p (rb (control s)))"
  "tx_fifo (store_control rb p v s) = tx_fifo s"
  "clock (store_control rb p v s) = clock s"
  "accesses (store_control rb p v s) =
     accesses s @
       [(clock s, Read CONTROL),
        (clock s, Write CONTROL
           (if v then set_bit p (rb (control s)) else unset_bit p (rb (control s))))]"
  by (simp_all add: store_control_def log_access_def Let_def)

lemma reset_control:
  "control (reset_uartlite rb s) =
     unset_bit 4 (rb (set_bit 1 (rb (set_bit 0 (rb (control s))))))"
  by (simp add: reset_uartlite_def store_control_simps tx_reset_def rx_reset_def
      intr_enable_def)

lemma reset_accesses:
  "accesses (reset_uartlite rb s) =
     accesses s @
       [(clock s, Read CONTROL),
        (clock s, Write CONTROL (set_bit 0 (rb (control s)))),
        (clock s, Read CONTROL),
        (clock s, Write CONTROL (set_bit 1 (rb (set_bit 0 (rb (control s)))))),
        (clock s, Read CONTROL),
        (clock s, Write CONTROL
           (unset_bit 4 (rb (set_bit 1 (rb (set_bit 0 (rb (control s))))))))]"
  by (simp add: reset_uartlite_def store_control_simps tx_reset_def rx_reset_def
      intr_enable_def)

lemma writes_to_append: "writes_to r (xs @ ys) = writes_to r xs @ writes_to r ys"
  by (induction r xs rule: writes_to.induct) simp_all

lemma reads_of_append: "reads_of r (xs @ ys) = reads_of r xs @ reads_of r ys"
  by (induction r xs rule: reads_of.induct) simp_all

text \<open>
  C5, as the code has it. \<open>reset_uartlite\<close> is total and returns the state only (the C
  function is \<^verbatim>\<open>void\<close>). It makes three load-modify-stores of \<^verbatim>\<open>control\<close>: it stores the
  word first loaded with bit 0 set, the word next loaded with bit 1 set, and the word
  last loaded with bit 4 clear, and touches nothing else. So bit 4 (\<^verbatim>\<open>intr_enable\<close>) of
  the control register is clear afterwards on every device and from every state. Bit 0
  (\<^verbatim>\<open>tx_reset\<close>) and bit 1 (\<^verbatim>\<open>rx_reset\<close>) are both set afterwards when each load of
  \<^verbatim>\<open>control\<close> returns the word last stored to it, as a control register mirror does.
\<close>

theorem reset_load_modify_store:
  "\<not> bit (control (reset_uartlite rb s)) 4 \<and>
   ((\<forall>w. rb w = w) \<longrightarrow>
      bit (control (reset_uartlite rb s)) 0 \<and> bit (control (reset_uartlite rb s)) 1) \<and>
   control (reset_uartlite rb s) =
     unset_bit 4 (rb (set_bit 1 (rb (set_bit 0 (rb (control s)))))) \<and>
   reads_of CONTROL (accesses (reset_uartlite rb s)) =
     reads_of CONTROL (accesses s) @ [clock s, clock s, clock s] \<and>
   writes_to CONTROL (accesses (reset_uartlite rb s)) =
     writes_to CONTROL (accesses s) @
       [(clock s, set_bit 0 (rb (control s))),
        (clock s, set_bit 1 (rb (set_bit 0 (rb (control s))))),
        (clock s, unset_bit 4 (rb (set_bit 1 (rb (set_bit 0 (rb (control s)))))))] \<and>
   writes_to TX_FIFO (accesses (reset_uartlite rb s)) = writes_to TX_FIFO (accesses s) \<and>
   tx_fifo (reset_uartlite rb s) = tx_fifo s \<and>
   clock (reset_uartlite rb s) = clock s"
proof -
  have "\<not> bit (control (reset_uartlite rb s)) 4"
    by (simp add: reset_control bit_unset_bit_iff)
  moreover have "bit (control (reset_uartlite rb s)) 0 \<and> bit (control (reset_uartlite rb s)) 1"
    if "\<forall>w. rb w = w"
    using that by (simp add: reset_control bit_set_bit_iff bit_unset_bit_iff)
  moreover have "reads_of CONTROL (accesses (reset_uartlite rb s)) =
      reads_of CONTROL (accesses s) @ [clock s, clock s, clock s]"
    by (simp add: reset_accesses reads_of_append)
  moreover have "writes_to CONTROL (accesses (reset_uartlite rb s)) =
      writes_to CONTROL (accesses s) @
        [(clock s, set_bit 0 (rb (control s))),
         (clock s, set_bit 1 (rb (set_bit 0 (rb (control s))))),
         (clock s, unset_bit 4 (rb (set_bit 1 (rb (set_bit 0 (rb (control s)))))))]"
    by (simp add: reset_accesses writes_to_append)
  moreover have "writes_to TX_FIFO (accesses (reset_uartlite rb s)) =
      writes_to TX_FIFO (accesses s)"
    by (simp add: reset_accesses writes_to_append)
  moreover have "tx_fifo (reset_uartlite rb s) = tx_fifo s" "clock (reset_uartlite rb s) = clock s"
    by (simp_all add: reset_uartlite_def store_control_simps)
  ultimately show ?thesis
    using reset_control [of rb s] by blast
qed

text \<open>On the mirror, from a control word with every bit set but the two reset bits: the
  words stored are \<open>0xFFFFFFFD\<close>, \<open>0xFFFFFFFF\<close> and \<open>0xFFFFFFEF\<close>.\<close>

theorem reset_load_modify_store_witness:
  "(\<forall>w. mirror w = w) \<and>
   bit (control (reset_uartlite mirror stale)) 0 \<and>
   bit (control (reset_uartlite mirror stale)) 1 \<and>
   \<not> bit (control (reset_uartlite mirror stale)) 4 \<and>
   control (reset_uartlite mirror stale) = 0xFFFFFFEF \<and>
   writes_to CONTROL (accesses (reset_uartlite mirror stale)) =
     [(0, 0xFFFFFFFD), (0, 0xFFFFFFFF), (0, 0xFFFFFFEF)]"
proof -
  have m: "\<forall>w. mirror w = w"
    by (simp add: mirror_def)
  have w: "set_bit 0 (0xFFFFFFFC :: u32) = 0xFFFFFFFD"
    "set_bit 1 (0xFFFFFFFD :: u32) = 0xFFFFFFFF"
    "unset_bit 4 (0xFFFFFFFF :: u32) = 0xFFFFFFEF"
    by (simp_all add: set_bit_eq_or unset_bit_eq_and_not)
  have c: "control stale = 0xFFFFFFFC" "clock stale = 0" "accesses stale = []"
    by (simp_all add: stale_def)
  from reset_load_modify_store [of mirror stale] m
  show ?thesis
    by (simp only: c w mirror_def) simp
qed

text \<open>
  The claim as it stands, for every device, fails on a \<^verbatim>\<open>control\<close> register that is
  write-only and reads as zero: each store is made from a word loaded as zero, the words
  stored are 1, 2 and 0, and the register ends with both reset bits clear.
\<close>

theorem reset_write_only_counterexample:
  "writes_to CONTROL (accesses (reset_uartlite reads_zero power_on)) =
     [(0, 1), (0, 2), (0, 0)] \<and>
   control (reset_uartlite reads_zero power_on) = 0 \<and>
   \<not> bit (control (reset_uartlite reads_zero power_on)) 0 \<and>
   \<not> bit (control (reset_uartlite reads_zero power_on)) 1"
proof -
  have w: "set_bit 0 (0 :: u32) = 1" "set_bit 1 (0 :: u32) = 2" "unset_bit 4 (0 :: u32) = 0"
    by (simp_all add: set_bit_eq_or unset_bit_eq_and_not)
  have c: "control (reset_uartlite reads_zero power_on) = 0"
    by (simp only: reset_control reads_zero_def w)
  have "writes_to CONTROL (accesses (reset_uartlite reads_zero power_on)) =
      [(0, 1), (0, 2), (0, 0)]"
    by (simp add: reset_accesses reads_zero_def w power_on_def)
  with c show ?thesis by simp
qed

section \<open>The busy-wait loops\<close>

lemma clock_poll: "clock (tick (log_access a s)) = Suc (clock s)"
  by (simp add: tick_def log_access_def)

lemma putc_returns:
  "(\<forall>j<k. tx_full (dev (clock s + j))) \<Longrightarrow> \<not> tx_full (dev (clock s + k)) \<Longrightarrow>
   putc_uartlite sc dev c s =
     Some (s\<lparr>tx_fifo := char_to_u32 sc c, clock := clock s + Suc k,
            accesses := accesses s @ map (\<lambda>t. (t, Read STATUS)) [clock s..<clock s + Suc k]
                         @ [(clock s + k, Write TX_FIFO (char_to_u32 sc c))]\<rparr>)"
proof (induction k arbitrary: s)
  case 0
  then show ?case
    by (subst putc_uartlite.simps) (simp add: tick_def log_access_def store_tx_fifo_def)
next
  case (Suc k)
  let ?s1 = "tick (log_access (Read STATUS) s)"
  from Suc.prems(1) have full: "tx_full (dev (clock s))" by force
  from Suc.prems(1) have "\<forall>j<k. tx_full (dev (clock ?s1 + j))"
    by (auto simp: clock_poll)
  moreover from Suc.prems(2) have "\<not> tx_full (dev (clock ?s1 + k))"
    by (simp add: clock_poll)
  ultimately have "putc_uartlite sc dev c ?s1 =
     Some (?s1\<lparr>tx_fifo := char_to_u32 sc c, clock := clock ?s1 + Suc k,
            accesses := accesses ?s1 @ map (\<lambda>t. (t, Read STATUS)) [clock ?s1..<clock ?s1 + Suc k]
                         @ [(clock ?s1 + k, Write TX_FIFO (char_to_u32 sc c))]\<rparr>)"
    by (rule Suc.IH)
  moreover have "putc_uartlite sc dev c s = putc_uartlite sc dev c ?s1"
    using full by (subst putc_uartlite.simps) simp
  ultimately show ?case
    by (simp add: tick_def log_access_def upt_conv_Cons)
qed

lemma putc_Some_first:
  assumes "putc_uartlite sc dev c s = Some s'"
  shows "\<exists>k. (\<forall>j<k. tx_full (dev (clock s + j))) \<and> \<not> tx_full (dev (clock s + k))"
proof (rule putc_uartlite.raw_induct
    [where P = "\<lambda>sc dev c s y. \<exists>k. (\<forall>j<k. tx_full (dev (clock s + j))) \<and>
                                   \<not> tx_full (dev (clock s + k))", rotated, OF assms],
    goal_cases)
  case (1 f sc dev c s y)
  show ?case
  proof (cases "tx_full (dev (clock s))")
    case True
    with 1(2) have "f sc dev c (tick (log_access (Read STATUS) s)) = Some y" by simp
    from 1(1)[OF this] obtain k where
      k: "\<forall>j<k. tx_full (dev (Suc (clock s) + j))" "\<not> tx_full (dev (Suc (clock s) + k))"
      by (auto simp: clock_poll)
    from True k(1) have "\<forall>j<Suc k. tx_full (dev (clock s + j))"
      by (auto simp: less_Suc_eq_0_disj)
    with k(2) show ?thesis by (intro exI[of _ "Suc k"]) simp
  next
    case False
    then show ?thesis by (intro exI[of _ 0]) simp
  qed
qed

lemma getc_returns:
  "(\<forall>j<k. \<not> rx_valid (dev (clock s + j))) \<Longrightarrow> rx_valid (dev (clock s + k)) \<Longrightarrow>
   getc_uartlite dev s =
     Some (ucast (rx_fifo (dev (clock s + k))),
           s\<lparr>clock := clock s + Suc k,
             accesses := accesses s @ map (\<lambda>t. (t, Read STATUS)) [clock s..<clock s + Suc k]
                         @ [(clock s + k, Read RX_FIFO)]\<rparr>)"
proof (induction k arbitrary: s)
  case 0
  then show ?case
    by (subst getc_uartlite.simps) (simp add: tick_def log_access_def)
next
  case (Suc k)
  let ?s1 = "tick (log_access (Read STATUS) s)"
  from Suc.prems(1) have wait: "\<not> rx_valid (dev (clock s))" by force
  from Suc.prems(1) have "\<forall>j<k. \<not> rx_valid (dev (clock ?s1 + j))"
    by (auto simp: clock_poll)
  moreover from Suc.prems(2) have "rx_valid (dev (clock ?s1 + k))"
    by (simp add: clock_poll)
  ultimately have "getc_uartlite dev ?s1 =
     Some (ucast (rx_fifo (dev (clock ?s1 + k))),
           ?s1\<lparr>clock := clock ?s1 + Suc k,
             accesses := accesses ?s1 @ map (\<lambda>t. (t, Read STATUS)) [clock ?s1..<clock ?s1 + Suc k]
                         @ [(clock ?s1 + k, Read RX_FIFO)]\<rparr>)"
    by (rule Suc.IH)
  moreover have "getc_uartlite dev s = getc_uartlite dev ?s1"
    using wait by (subst getc_uartlite.simps) simp
  ultimately show ?case
    by (simp add: tick_def log_access_def upt_conv_Cons)
qed

lemma getc_Some_first:
  assumes "getc_uartlite dev s = Some r"
  shows "\<exists>k. (\<forall>j<k. \<not> rx_valid (dev (clock s + j))) \<and> rx_valid (dev (clock s + k))"
proof (rule getc_uartlite.raw_induct
    [where P = "\<lambda>dev s y. \<exists>k. (\<forall>j<k. \<not> rx_valid (dev (clock s + j))) \<and>
                              rx_valid (dev (clock s + k))", rotated, OF assms],
    goal_cases)
  case (1 f dev s y)
  show ?case
  proof (cases "rx_valid (dev (clock s))")
    case False
    with 1(2) have "f dev (tick (log_access (Read STATUS) s)) = Some y" by simp
    from 1(1)[OF this] obtain k where
      k: "\<forall>j<k. \<not> rx_valid (dev (Suc (clock s) + j))" "rx_valid (dev (Suc (clock s) + k))"
      by (auto simp: clock_poll)
    from False k(1) have "\<forall>j<Suc k. \<not> rx_valid (dev (clock s + j))"
      by (auto simp: less_Suc_eq_0_disj)
    with k(2) show ?thesis by (intro exI[of _ "Suc k"]) simp
  next
    case True
    then show ?thesis by (intro exI[of _ 0]) simp
  qed
qed

lemma putc_spins:
  "(\<forall>j<k. tx_full (dev (clock s + j))) \<Longrightarrow>
   putc_uartlite sc dev c s =
     putc_uartlite sc dev c
       (s\<lparr>clock := clock s + k,
          accesses := accesses s @ map (\<lambda>t. (t, Read STATUS)) [clock s..<clock s + k]\<rparr>)"
proof (induction k arbitrary: s)
  case 0
  then show ?case by simp
next
  case (Suc k)
  let ?s1 = "tick (log_access (Read STATUS) s)"
  from Suc.prems have full: "tx_full (dev (clock s))" by force
  from Suc.prems have "\<forall>j<k. tx_full (dev (clock ?s1 + j))"
    by (auto simp: clock_poll)
  then have "putc_uartlite sc dev c ?s1 =
     putc_uartlite sc dev c
       (?s1\<lparr>clock := clock ?s1 + k,
           accesses := accesses ?s1 @ map (\<lambda>t. (t, Read STATUS)) [clock ?s1..<clock ?s1 + k]\<rparr>)"
    by (rule Suc.IH)
  moreover have "putc_uartlite sc dev c s = putc_uartlite sc dev c ?s1"
    using full by (subst putc_uartlite.simps) simp
  moreover have "[clock s..<clock s + Suc k] = clock s # [clock ?s1..<clock ?s1 + k]"
    by (subst upt_rec) (simp add: clock_poll)
  ultimately show ?case
    by (simp add: tick_def log_access_def del: upt_Suc)
qed

lemma getc_spins:
  "(\<forall>j<k. \<not> rx_valid (dev (clock s + j))) \<Longrightarrow>
   getc_uartlite dev s =
     getc_uartlite dev
       (s\<lparr>clock := clock s + k,
          accesses := accesses s @ map (\<lambda>t. (t, Read STATUS)) [clock s..<clock s + k]\<rparr>)"
proof (induction k arbitrary: s)
  case 0
  then show ?case by simp
next
  case (Suc k)
  let ?s1 = "tick (log_access (Read STATUS) s)"
  from Suc.prems have wait: "\<not> rx_valid (dev (clock s))" by force
  from Suc.prems have "\<forall>j<k. \<not> rx_valid (dev (clock ?s1 + j))"
    by (auto simp: clock_poll)
  then have "getc_uartlite dev ?s1 =
     getc_uartlite dev
       (?s1\<lparr>clock := clock ?s1 + k,
           accesses := accesses ?s1 @ map (\<lambda>t. (t, Read STATUS)) [clock ?s1..<clock ?s1 + k]\<rparr>)"
    by (rule Suc.IH)
  moreover have "getc_uartlite dev s = getc_uartlite dev ?s1"
    using wait by (subst getc_uartlite.simps) simp
  moreover have "[clock s..<clock s + Suc k] = clock s # [clock ?s1..<clock ?s1 + k]"
    by (subst upt_rec) (simp add: clock_poll)
  ultimately show ?case
    by (simp add: tick_def log_access_def del: upt_Suc)
qed

lemma first_nat: "\<exists>k. P (k::nat) \<Longrightarrow> \<exists>k. (\<forall>j<k. \<not> P j) \<and> P k"
  by (metis exists_least_iff)

lemma char_to_u32_low: "(ucast (char_to_u32 sc c) :: cchar) = c"
  by (cases sc; rule bit_word_eqI) (auto simp: char_to_u32_def bit_word_ucast_iff bit_word_scast_iff)

text \<open>
  C2. \<open>putc_uartlite\<close> returns exactly when the trace has a first step, \<open>k\<close> steps from the
  current one, at which \<^verbatim>\<open>tx_full\<close> is clear. Its accesses are then a read of \<^verbatim>\<open>status\<close>
  at each of the steps up to that one and a single write to \<^verbatim>\<open>tx_fifo\<close>, at that step:
  at the \<open>k\<close> steps before, where \<^verbatim>\<open>tx_full\<close> is set, it writes nothing. The word
  written is \<open>c\<close> widened to 32 bits, whose low byte is \<open>c\<close>. Whether the call returns
  or not, as long as \<^verbatim>\<open>tx_full\<close> has been set it has only read \<^verbatim>\<open>status\<close>: after \<open>k\<close>
  such steps the call goes on as one made at step \<open>clock s + k\<close>, with \<open>k\<close> reads
  recorded and no write.
\<close>

theorem putc_waits_then_writes_once:
  "(putc_uartlite sc dev c s = Some s' \<longleftrightarrow>
     (\<exists>k. (\<forall>j<k. tx_full (dev (clock s + j))) \<and> \<not> tx_full (dev (clock s + k)) \<and>
          s' = s\<lparr>tx_fifo := char_to_u32 sc c, clock := clock s + Suc k,
                 accesses := accesses s
                   @ map (\<lambda>t. (t, Read STATUS)) [clock s..<clock s + Suc k]
                   @ [(clock s + k, Write TX_FIFO (char_to_u32 sc c))]\<rparr>)) \<and>
   (\<forall>k. (\<forall>j<k. tx_full (dev (clock s + j))) \<longrightarrow>
        putc_uartlite sc dev c s =
          putc_uartlite sc dev c
            (s\<lparr>clock := clock s + k,
               accesses := accesses s
                 @ map (\<lambda>t. (t, Read STATUS)) [clock s..<clock s + k]\<rparr>)) \<and>
   ucast (char_to_u32 sc c) = c"
proof -
  have "putc_uartlite sc dev c s = Some s' \<longleftrightarrow>
     (\<exists>k. (\<forall>j<k. tx_full (dev (clock s + j))) \<and> \<not> tx_full (dev (clock s + k)) \<and>
          s' = s\<lparr>tx_fifo := char_to_u32 sc c, clock := clock s + Suc k,
                 accesses := accesses s
                   @ map (\<lambda>t. (t, Read STATUS)) [clock s..<clock s + Suc k]
                   @ [(clock s + k, Write TX_FIFO (char_to_u32 sc c))]\<rparr>)"
    (is "?l \<longleftrightarrow> ?r")
  proof
    assume ?l
    from putc_Some_first [OF this] obtain k where
      k: "\<forall>j<k. tx_full (dev (clock s + j))" "\<not> tx_full (dev (clock s + k))"
      by blast
    from putc_returns [OF k, of sc c] \<open>?l\<close> show ?r
      using k by (intro exI [of _ k]) simp
  next
    assume ?r
    then show ?l by (auto simp: putc_returns)
  qed
  moreover have "\<forall>k. (\<forall>j<k. tx_full (dev (clock s + j))) \<longrightarrow>
        putc_uartlite sc dev c s =
          putc_uartlite sc dev c
            (s\<lparr>clock := clock s + k,
               accesses := accesses s
                 @ map (\<lambda>t. (t, Read STATUS)) [clock s..<clock s + k]\<rparr>)"
    using putc_spins by blast
  ultimately show ?thesis
    using char_to_u32_low [of sc c] by blast
qed

text \<open>On the trace that is full for two steps, with a signed \<^verbatim>\<open>char\<close> \<open>0xC1\<close>: three reads
  of \<^verbatim>\<open>status\<close>, then the one write, at step 2.\<close>

theorem putc_waits_then_writes_once_witness:
  "tx_full (busy_twice 0) \<and> tx_full (busy_twice 1) \<and> \<not> tx_full (busy_twice 2) \<and>
   putc_uartlite True busy_twice 0xC1 power_on =
     Some \<lparr>tx_fifo = 0xFFFFFFC1, control = 0, clock = 3,
           accesses = [(0, Read STATUS), (1, Read STATUS), (2, Read STATUS),
                       (2, Write TX_FIFO 0xFFFFFFC1)]\<rparr>"
proof -
  have a: "\<forall>j<2. tx_full (busy_twice (clock power_on + j))"
    by (simp add: busy_twice_def tx_full_def power_on_def)
  have b: "\<not> tx_full (busy_twice (clock power_on + 2))"
    by (simp add: busy_twice_def tx_full_def power_on_def)
  have "\<exists>k. (\<forall>j<k. tx_full (busy_twice (clock power_on + j))) \<and>
            \<not> tx_full (busy_twice (clock power_on + k)) \<and>
            \<lparr>tx_fifo = 0xFFFFFFC1, control = 0, clock = 3,
             accesses = [(0, Read STATUS), (1, Read STATUS), (2, Read STATUS),
                         (2, Write TX_FIFO 0xFFFFFFC1)]\<rparr> =
            power_on\<lparr>tx_fifo := char_to_u32 True 0xC1, clock := clock power_on + Suc k,
                 accesses := accesses power_on
                   @ map (\<lambda>t. (t, Read STATUS)) [clock power_on..<clock power_on + Suc k]
                   @ [(clock power_on + k, Write TX_FIFO (char_to_u32 True 0xC1))]\<rparr>"
    using a b by (intro exI [of _ 2]) (simp add: power_on_def char_to_u32_def upt_rec)
  with putc_waits_then_writes_once [of True busy_twice "0xC1" power_on]
  have "putc_uartlite True busy_twice 0xC1 power_on =
     Some \<lparr>tx_fifo = 0xFFFFFFC1, control = 0, clock = 3,
           accesses = [(0, Read STATUS), (1, Read STATUS), (2, Read STATUS),
                       (2, Write TX_FIFO 0xFFFFFFC1)]\<rparr>"
    by blast
  then show ?thesis
    by (simp add: busy_twice_def tx_full_def)
qed

text \<open>
  C3. \<open>getc_uartlite\<close> returns exactly when the trace has a first step at which
  \<^verbatim>\<open>rx_valid\<close> is set. The character it returns is the byte in \<^verbatim>\<open>rx_fifo\<close> at that first
  step, read once, at that step. Whether the call returns or not, as long as \<^verbatim>\<open>rx_valid\<close>
  has been clear it has only read \<^verbatim>\<open>status\<close>, and \<^verbatim>\<open>rx_fifo\<close> not at all.
\<close>

theorem getc_returns_byte_of_first_valid_step:
  "(getc_uartlite dev s = Some (c, s') \<longleftrightarrow>
     (\<exists>k. (\<forall>j<k. \<not> rx_valid (dev (clock s + j))) \<and> rx_valid (dev (clock s + k)) \<and>
          c = ucast (rx_fifo (dev (clock s + k))) \<and>
          s' = s\<lparr>clock := clock s + Suc k,
                 accesses := accesses s
                   @ map (\<lambda>t. (t, Read STATUS)) [clock s..<clock s + Suc k]
                   @ [(clock s + k, Read RX_FIFO)]\<rparr>)) \<and>
   (\<forall>k. (\<forall>j<k. \<not> rx_valid (dev (clock s + j))) \<longrightarrow>
        getc_uartlite dev s =
          getc_uartlite dev
            (s\<lparr>clock := clock s + k,
               accesses := accesses s
                 @ map (\<lambda>t. (t, Read STATUS)) [clock s..<clock s + k]\<rparr>))"
proof -
  have "getc_uartlite dev s = Some (c, s') \<longleftrightarrow>
     (\<exists>k. (\<forall>j<k. \<not> rx_valid (dev (clock s + j))) \<and> rx_valid (dev (clock s + k)) \<and>
          c = ucast (rx_fifo (dev (clock s + k))) \<and>
          s' = s\<lparr>clock := clock s + Suc k,
                 accesses := accesses s
                   @ map (\<lambda>t. (t, Read STATUS)) [clock s..<clock s + Suc k]
                   @ [(clock s + k, Read RX_FIFO)]\<rparr>)"
    (is "?l \<longleftrightarrow> ?r")
  proof
    assume ?l
    from getc_Some_first [OF this] obtain k where
      k: "\<forall>j<k. \<not> rx_valid (dev (clock s + j))" "rx_valid (dev (clock s + k))"
      by blast
    from getc_returns [OF k] \<open>?l\<close> show ?r
      using k by (intro exI [of _ k]) simp
  next
    assume ?r
    then show ?l by (auto simp: getc_returns)
  qed
  moreover have "\<forall>k. (\<forall>j<k. \<not> rx_valid (dev (clock s + j))) \<longrightarrow>
        getc_uartlite dev s =
          getc_uartlite dev
            (s\<lparr>clock := clock s + k,
               accesses := accesses s
                 @ map (\<lambda>t. (t, Read STATUS)) [clock s..<clock s + k]\<rparr>)"
    using getc_spins by blast
  ultimately show ?thesis by blast
qed

text \<open>On the trace whose receiver is empty for two steps: the byte of step 2 comes back, not
  the \<open>0x58\<close> that \<^verbatim>\<open>rx_fifo\<close> showed before \<^verbatim>\<open>rx_valid\<close> was set.\<close>

theorem getc_returns_byte_of_first_valid_step_witness:
  "\<not> rx_valid (late_byte 0) \<and> \<not> rx_valid (late_byte 1) \<and> rx_valid (late_byte 2) \<and>
   getc_uartlite late_byte power_on =
     Some (0xC3, \<lparr>tx_fifo = 0, control = 0, clock = 3,
                  accesses = [(0, Read STATUS), (1, Read STATUS), (2, Read STATUS),
                              (2, Read RX_FIFO)]\<rparr>)"
proof -
  have a: "\<forall>j<2. \<not> rx_valid (late_byte (clock power_on + j))"
    by (simp add: late_byte_def rx_valid_def power_on_def)
  have b: "rx_valid (late_byte (clock power_on + 2))"
    by (simp add: late_byte_def rx_valid_def power_on_def)
  have "\<exists>k. (\<forall>j<k. \<not> rx_valid (late_byte (clock power_on + j))) \<and>
            rx_valid (late_byte (clock power_on + k)) \<and>
            (0xC3 :: cchar) = ucast (rx_fifo (late_byte (clock power_on + k))) \<and>
            \<lparr>tx_fifo = 0, control = 0, clock = 3,
             accesses = [(0, Read STATUS), (1, Read STATUS), (2, Read STATUS),
                         (2, Read RX_FIFO)]\<rparr> =
            power_on\<lparr>clock := clock power_on + Suc k,
                 accesses := accesses power_on
                   @ map (\<lambda>t. (t, Read STATUS)) [clock power_on..<clock power_on + Suc k]
                   @ [(clock power_on + k, Read RX_FIFO)]\<rparr>"
    using a b by (intro exI [of _ 2]) (simp add: power_on_def late_byte_def upt_rec)
  with getc_returns_byte_of_first_valid_step [of late_byte power_on "0xC3"]
  have "getc_uartlite late_byte power_on =
     Some (0xC3, \<lparr>tx_fifo = 0, control = 0, clock = 3,
                  accesses = [(0, Read STATUS), (1, Read STATUS), (2, Read STATUS),
                              (2, Read RX_FIFO)]\<rparr>)"
    by blast
  then show ?thesis
    by (simp add: late_byte_def rx_valid_def)
qed

text \<open>
  C10. When \<^verbatim>\<open>rx_valid\<close> is first set \<open>k\<close> steps from the current one,
  \<open>getc_uartlite\<close> returns, and the character returned is the low eight bits of the
  32-bit \<^verbatim>\<open>rx_fifo\<close> word of that step: its value modulo \<open>2\<^sup>8\<close>, whatever the upper 24
  bits are.
\<close>

theorem getc_keeps_low_byte:
  assumes "\<forall>j<k. \<not> rx_valid (dev (clock s + j))" and "rx_valid (dev (clock s + k))"
  shows "\<exists>c s'. getc_uartlite dev s = Some (c, s') \<and>
                unat c = unat (rx_fifo (dev (clock s + k))) mod 2 ^ 8 \<and>
                (\<forall>i. bit c i \<longleftrightarrow> i < 8 \<and> bit (rx_fifo (dev (clock s + k))) i)"
proof -
  have "unat (ucast (rx_fifo (dev (clock s + k))) :: cchar) = unat (rx_fifo (dev (clock s + k))) mod 2 ^ 8"
    by (simp add: unsigned_ucast_eq take_bit_eq_mod)
  moreover have "\<forall>i. bit (ucast (rx_fifo (dev (clock s + k))) :: cchar) i \<longleftrightarrow> i < 8 \<and> bit (rx_fifo (dev (clock s + k))) i"
    by (auto simp: bit_word_ucast_iff)
  ultimately show ?thesis
    using getc_returns [OF assms] by blast
qed

text \<open>With \<open>0x123456C3\<close> in \<^verbatim>\<open>rx_fifo\<close> the character is \<open>0xC3\<close>.\<close>

theorem getc_keeps_low_byte_witness:
  "\<not> rx_valid (late_byte 0) \<and> \<not> rx_valid (late_byte 1) \<and> rx_valid (late_byte 2) \<and>
   rx_fifo (late_byte 2) = 0x123456C3 \<and>
   (\<exists>s'. getc_uartlite late_byte power_on = Some (0xC3, s'))"
proof -
  have a: "\<forall>j<2. \<not> rx_valid (late_byte (clock power_on + j))"
    by (simp add: late_byte_def rx_valid_def power_on_def)
  have b: "rx_valid (late_byte (clock power_on + 2))"
    by (simp add: late_byte_def rx_valid_def power_on_def)
  have r: "rx_fifo (late_byte (clock power_on + 2)) = 0x123456C3"
    by (simp add: late_byte_def power_on_def)
  from getc_keeps_low_byte [OF a b] obtain c s' where
    g: "getc_uartlite late_byte power_on = Some (c, s')" and
    u: "unat c = unat (rx_fifo (late_byte (clock power_on + 2))) mod 2 ^ 8"
    by blast
  from u have "unat c = unat (0x123456C3 :: u32) mod 2 ^ 8" by (simp only: r)
  then have "unat c = unat (0xC3 :: cchar)" by simp
  then have "c = 0xC3" by (rule unsigned_word_eqI)
  with g have "\<exists>s'. getc_uartlite late_byte power_on = Some (0xC3, s')" by blast
  then show ?thesis
    by (simp add: late_byte_def rx_valid_def)
qed

text \<open>
  C7. \<open>putc_uartlite\<close> returns if and only if \<^verbatim>\<open>tx_full\<close> is clear at some step from the
  current one on, and never returns if and only if it is set at all of them: there is no
  timeout. In the same way \<open>getc_uartlite\<close> returns if and only if \<^verbatim>\<open>rx_valid\<close> is set
  at some step from the current one on.
\<close>

theorem busy_wait_termination:
  "((\<exists>s'. putc_uartlite sc dev c s = Some s') \<longleftrightarrow> (\<exists>k. \<not> tx_full (dev (clock s + k)))) \<and>
   (putc_uartlite sc dev c s = None \<longleftrightarrow> (\<forall>k. tx_full (dev (clock s + k)))) \<and>
   ((\<exists>r. getc_uartlite dev s = Some r) \<longleftrightarrow> (\<exists>k. rx_valid (dev (clock s + k)))) \<and>
   (getc_uartlite dev s = None \<longleftrightarrow> (\<forall>k. \<not> rx_valid (dev (clock s + k))))"
proof -
  have p: "(\<exists>s'. putc_uartlite sc dev c s = Some s') \<longleftrightarrow> (\<exists>k. \<not> tx_full (dev (clock s + k)))"
  proof
    assume "\<exists>s'. putc_uartlite sc dev c s = Some s'"
    then show "\<exists>k. \<not> tx_full (dev (clock s + k))"
      using putc_Some_first by blast
  next
    assume "\<exists>k. \<not> tx_full (dev (clock s + k))"
    from first_nat [of "\<lambda>k. \<not> tx_full (dev (clock s + k))", OF this] obtain k where
      "\<forall>j<k. tx_full (dev (clock s + j))" "\<not> tx_full (dev (clock s + k))"
      by auto
    from putc_returns [OF this] show "\<exists>s'. putc_uartlite sc dev c s = Some s'"
      by blast
  qed
  have g: "(\<exists>r. getc_uartlite dev s = Some r) \<longleftrightarrow> (\<exists>k. rx_valid (dev (clock s + k)))"
  proof
    assume "\<exists>r. getc_uartlite dev s = Some r"
    then show "\<exists>k. rx_valid (dev (clock s + k))"
      using getc_Some_first by blast
  next
    assume "\<exists>k. rx_valid (dev (clock s + k))"
    from first_nat [of "\<lambda>k. rx_valid (dev (clock s + k))", OF this] obtain k where
      "\<forall>j<k. \<not> rx_valid (dev (clock s + j))" "rx_valid (dev (clock s + k))"
      by auto
    from getc_returns [OF this] show "\<exists>r. getc_uartlite dev s = Some r"
      by blast
  qed
  from p have "putc_uartlite sc dev c s = None \<longleftrightarrow> (\<forall>k. tx_full (dev (clock s + k)))"
    by (cases "putc_uartlite sc dev c s") auto
  moreover from g have "getc_uartlite dev s = None \<longleftrightarrow> (\<forall>k. \<not> rx_valid (dev (clock s + k)))"
    by (cases "getc_uartlite dev s") auto
  ultimately show ?thesis using p g by blast
qed

text \<open>Both outcomes, for either function.\<close>

theorem busy_wait_termination_witness:
  "putc_uartlite False stuck_full 0x41 power_on = None \<and>
   (\<exists>s'. putc_uartlite False busy_twice 0x41 power_on = Some s') \<and>
   getc_uartlite never_valid power_on = None \<and>
   (\<exists>r. getc_uartlite late_byte power_on = Some r)"
proof -
  have "\<forall>k. tx_full (stuck_full (clock power_on + k))"
    by (simp add: stuck_full_def tx_full_def)
  moreover have "\<not> tx_full (busy_twice (clock power_on + 2))"
    by (simp add: busy_twice_def tx_full_def)
  moreover have "\<forall>k. \<not> rx_valid (never_valid (clock power_on + k))"
    by (simp add: never_valid_def rx_valid_def)
  moreover have "rx_valid (late_byte (clock power_on + 2))"
    by (simp add: late_byte_def rx_valid_def)
  ultimately show ?thesis
    using busy_wait_termination [of False stuck_full "0x41" power_on]
      busy_wait_termination [of False busy_twice "0x41" power_on]
      busy_wait_termination [of False never_valid "0x41" power_on]
      busy_wait_termination [of False late_byte "0x41" power_on]
    by blast
qed

section \<open>Strings\<close>

text \<open>
  C9. On an array whose first byte is the terminator, \<open>puts_uartlite\<close> returns, for
  every device trace and every state, and returns the state it was given: no access is
  recorded, no step is used and no register changes.
\<close>

theorem puts_empty_touches_nothing:
  "puts_uartlite sc dev (0 # rest) s = Some (Inr s)"
  by simp

text \<open>The empty string on the device that is always full.\<close>

theorem puts_empty_touches_nothing_witness:
  "puts_uartlite False stuck_full [0] power_on = Some (Inr power_on)"
  by (rule puts_empty_touches_nothing)

lemma putc_free:
  "\<not> tx_full (dev (clock s)) \<Longrightarrow>
   putc_uartlite sc dev c s =
     Some (s\<lparr>tx_fifo := char_to_u32 sc c, clock := Suc (clock s),
            accesses := accesses s @ [(clock s, Read STATUS),
                                      (clock s, Write TX_FIFO (char_to_u32 sc c))]\<rparr>)"
  using putc_returns [of 0 dev s sc c] by simp

lemma puts_free:
  assumes "\<forall>t. \<not> tx_full (dev t)" and "0 \<notin> set bs"
  shows "\<exists>s' new. puts_uartlite sc dev (bs @ 0 # rest) s = Some (Inr s') \<and>
           control s' = control s \<and>
           clock s' = clock s + length bs \<and>
           accesses s' = accesses s @ new \<and>
           length new = 2 * length bs \<and>
           writes_to TX_FIFO new =
             zip [clock s..<clock s + length bs] (map (char_to_u32 sc) bs) \<and>
           writes_to CONTROL new = [] \<and>
           reads_of CONTROL new = []"
  using assms(2)
proof (induction bs arbitrary: s)
  case Nil
  then show ?case by simp
next
  case (Cons b bs)
  let ?s1 = "s\<lparr>tx_fifo := char_to_u32 sc b, clock := Suc (clock s),
               accesses := accesses s @ [(clock s, Read STATUS),
                                         (clock s, Write TX_FIFO (char_to_u32 sc b))]\<rparr>"
  from assms(1) have p: "putc_uartlite sc dev b s = Some ?s1"
    by (simp add: putc_free)
  from Cons.prems have "b \<noteq> 0" and "0 \<notin> set bs" by auto
  from Cons.IH [OF this(2), of ?s1] obtain s' new where
    r: "puts_uartlite sc dev (bs @ 0 # rest) ?s1 = Some (Inr s')" and
    c: "control s' = control ?s1" "clock s' = clock ?s1 + length bs" and
    a: "accesses s' = accesses ?s1 @ new" and
    n: "length new = 2 * length bs" and
    w: "writes_to TX_FIFO new =
          zip [clock ?s1..<clock ?s1 + length bs] (map (char_to_u32 sc) bs)"
       "writes_to CONTROL new = []" "reads_of CONTROL new = []"
    by blast
  let ?new = "[(clock s, Read STATUS), (clock s, Write TX_FIFO (char_to_u32 sc b))] @ new"
  have "puts_uartlite sc dev ((b # bs) @ 0 # rest) s = Some (Inr s')"
    using \<open>b \<noteq> 0\<close> p r by simp
  moreover have "control s' = control s" "clock s' = clock s + length (b # bs)"
    using c by simp_all
  moreover have "accesses s' = accesses s @ ?new"
    using a by simp
  moreover have "length ?new = 2 * length (b # bs)"
    using n by simp
  moreover have "writes_to TX_FIFO ?new =
      zip [clock s..<clock s + length (b # bs)] (map (char_to_u32 sc) (b # bs))"
  proof -
    have u: "[clock s..<clock s + length (b # bs)] =
               clock s # [clock ?s1..<clock ?s1 + length bs]"
      by (subst upt_rec) simp
    have "writes_to TX_FIFO ?new = (clock s, char_to_u32 sc b) # writes_to TX_FIFO new"
      by simp
    also have "\<dots> = (clock s, char_to_u32 sc b) #
                 zip [clock ?s1..<clock ?s1 + length bs] (map (char_to_u32 sc) bs)"
      by (simp only: w(1))
    also have "\<dots> = zip [clock s..<clock s + length (b # bs)] (map (char_to_u32 sc) (b # bs))"
      by (simp only: u list.map zip_Cons_Cons)
    finally show ?thesis .
  qed
  moreover have "writes_to CONTROL ?new = []" "reads_of CONTROL ?new = []"
    using w(2,3) by simp_all
  ultimately show ?case by blast
qed

text \<open>
  C4. On a device whose transmitter is never full, and an array \<open>bs @ 0 # rest\<close> whose
  bytes \<open>bs\<close> before the first zero byte are non-zero, \<open>puts_uartlite\<close> returns. Its
  accesses are two for each byte of \<open>bs\<close> (the read of \<^verbatim>\<open>status\<close> and the write); the
  writes to \<^verbatim>\<open>tx_fifo\<close> are the bytes of \<open>bs\<close>, widened, one each, in order, at
  successive steps; the terminator and what follows it are not written, and \<^verbatim>\<open>control\<close>
  is not written. In particular \<^verbatim>\<open>"AB"\<close> gives the two writes \<open>0x41\<close>, \<open>0x42\<close>.
\<close>

theorem puts_writes_each_byte_once:
  assumes "\<forall>t. \<not> tx_full (dev t)" and "0 \<notin> set bs"
  shows "(\<exists>s' new. puts_uartlite sc dev (bs @ 0 # rest) s = Some (Inr s') \<and>
            accesses s' = accesses s @ new \<and>
            length new = 2 * length bs \<and>
            writes_to TX_FIFO new =
              zip [clock s..<clock s + length bs] (map (char_to_u32 sc) bs) \<and>
            writes_to CONTROL new = []) \<and>
         (\<exists>s' new. puts_uartlite sc dev [0x41, 0x42, 0] s = Some (Inr s') \<and>
            accesses s' = accesses s @ new \<and>
            writes_to TX_FIFO new = [(clock s, 0x41), (Suc (clock s), 0x42)])"
proof -
  have ab: "char_to_u32 sc 0x41 = 0x41" "char_to_u32 sc 0x42 = 0x42"
    by (simp_all add: char_to_u32_def)
  from puts_free [OF assms(1), of "[0x41, 0x42]" sc "[]" s] obtain s' new where
    "puts_uartlite sc dev [0x41, 0x42, 0] s = Some (Inr s')"
    "accesses s' = accesses s @ new"
    "writes_to TX_FIFO new = zip [clock s..<clock s + 2] (map (char_to_u32 sc) [0x41, 0x42])"
    by auto
  then have "\<exists>s' new. puts_uartlite sc dev [0x41, 0x42, 0] s = Some (Inr s') \<and>
            accesses s' = accesses s @ new \<and>
            writes_to TX_FIFO new = [(clock s, 0x41), (Suc (clock s), 0x42)]"
    by (simp add: ab upt_rec)
  moreover from puts_free [OF assms, of sc rest s]
  have "\<exists>s' new. puts_uartlite sc dev (bs @ 0 # rest) s = Some (Inr s') \<and>
            accesses s' = accesses s @ new \<and>
            length new = 2 * length bs \<and>
            writes_to TX_FIFO new =
              zip [clock s..<clock s + length bs] (map (char_to_u32 sc) bs) \<and>
            writes_to CONTROL new = []"
    by blast
  ultimately show ?thesis by blast
qed

text \<open>The string \<^verbatim>\<open>"AB"\<close> from the starting state, on the free device.\<close>

theorem puts_writes_each_byte_once_witness:
  "(\<forall>t. \<not> tx_full (idle t)) \<and> 0 \<notin> set [0x41, 0x42 :: cchar] \<and>
   (\<exists>s' new. puts_uartlite False idle ([0x41, 0x42] @ 0 # []) power_on = Some (Inr s') \<and>
      accesses s' = new \<and> length new = 4 \<and>
      writes_to TX_FIFO new = [(0, 0x41), (1, 0x42)] \<and>
      writes_to CONTROL new = [])"
proof -
  have a: "\<forall>t. \<not> tx_full (idle t)"
    by (simp add: idle_def tx_full_def)
  have b: "0 \<notin> set [0x41, 0x42 :: cchar]"
    by simp
  from puts_writes_each_byte_once [OF a b, of False "[]" power_on] a b
  show ?thesis
    by (simp add: power_on_def char_to_u32_def upt_rec)
qed

section \<open>The top-level routine\<close>

lemma hello_world_split:
  "hello_world =
     [0x48, 0x65, 0x6C, 0x6C, 0x6F, 0x2C, 0x20, 0x57, 0x6F, 0x72, 0x6C, 0x64, 0x21,
      0x0D, 0x0A] @ 0 # []"
  by (simp add: hello_world_def)

lemma hello_world_widened:
  "map (char_to_u32 sc)
     [0x48, 0x65, 0x6C, 0x6C, 0x6F, 0x2C, 0x20, 0x57, 0x6F, 0x72, 0x6C, 0x64, 0x21,
      0x0D, 0x0A] =
     [0x48, 0x65, 0x6C, 0x6C, 0x6F, 0x2C, 0x20, 0x57, 0x6F, 0x72, 0x6C, 0x64, 0x21,
      0x0D, 0x0A]"
  by (cases sc) (simp_all add: char_to_u32_def)

lemma main_loop_free:
  assumes "\<forall>t. \<not> tx_full (dev t)"
  shows "\<exists>s' rest. main_loop sc dev n s = Some (Inr s') \<and>
           control s' = control s \<and>
           accesses s' = accesses s @ rest \<and>
           writes_to CONTROL rest = [] \<and>
           reads_of CONTROL rest = [] \<and>
           map snd (writes_to TX_FIFO rest) =
             concat (replicate n
               [0x48, 0x65, 0x6C, 0x6C, 0x6F, 0x2C, 0x20, 0x57, 0x6F, 0x72, 0x6C, 0x64, 0x21,
                0x0D, 0x0A])"
proof (induction n arbitrary: s)
  case 0
  then show ?case by simp
next
  case (Suc n)
  let ?cs = "[0x48, 0x65, 0x6C, 0x6C, 0x6F, 0x2C, 0x20, 0x57, 0x6F, 0x72, 0x6C, 0x64, 0x21,
              0x0D, 0x0A] :: cchar list"
  have "0 \<notin> set ?cs" by simp
  from puts_free [OF assms this, of sc "[]" s] obtain s1 new where
    p: "puts_uartlite sc dev hello_world s = Some (Inr s1)" and
    c1: "control s1 = control s" and
    a1: "accesses s1 = accesses s @ new" and
    w1: "writes_to TX_FIFO new = zip [clock s..<clock s + length ?cs] (map (char_to_u32 sc) ?cs)"
        "writes_to CONTROL new = []" "reads_of CONTROL new = []"
    unfolding hello_world_split by blast
  from Suc.IH [of s1] obtain s' rest where
    m: "main_loop sc dev n s1 = Some (Inr s')" and
    c: "control s' = control s1" and
    a: "accesses s' = accesses s1 @ rest" and
    w: "writes_to CONTROL rest = []"
       "map snd (writes_to TX_FIFO rest) =
          concat (replicate n
            [0x48, 0x65, 0x6C, 0x6C, 0x6F, 0x2C, 0x20, 0x57, 0x6F, 0x72, 0x6C, 0x64, 0x21,
             0x0D, 0x0A])" and
    r: "reads_of CONTROL rest = []"
    by blast
  have "map snd (writes_to TX_FIFO new) = map (char_to_u32 sc) ?cs"
    unfolding w1(1) by (rule map_snd_zip) simp
  then have t: "map snd (writes_to TX_FIFO new) =
      [0x48, 0x65, 0x6C, 0x6C, 0x6F, 0x2C, 0x20, 0x57, 0x6F, 0x72, 0x6C, 0x64, 0x21,
       0x0D, 0x0A]"
    by (simp only: hello_world_widened)
  have "main_loop sc dev (Suc n) s = Some (Inr s')"
    using p m by simp
  moreover have "control s' = control s"
    using c c1 by simp
  moreover have "accesses s' = accesses s @ (new @ rest)"
    using a a1 by simp
  moreover have "writes_to CONTROL (new @ rest) = []"
    using w(1) w1(2) by (simp add: writes_to_append)
  moreover have "reads_of CONTROL (new @ rest) = []"
    using r w1(3) by (simp add: reads_of_append)
  moreover have "map snd (writes_to TX_FIFO (new @ rest)) =
      concat (replicate (Suc n)
        [0x48, 0x65, 0x6C, 0x6C, 0x6F, 0x2C, 0x20, 0x57, 0x6F, 0x72, 0x6C, 0x64, 0x21,
         0x0D, 0x0A])"
    using w(2) t by (simp add: writes_to_append)
  ultimately show ?case by blast
qed

text \<open>
  C1. On a device whose transmitter is never full, whatever its \<^verbatim>\<open>control\<close> register
  reads as, \<open>main\<close> goes round its loop any number \<open>n\<close> of times. Its accesses begin with
  those of the one call of \<open>reset_uartlite\<close>: three times a load and a store of
  \<^verbatim>\<open>control\<close>. After them \<^verbatim>\<open>control\<close> is neither loaded nor stored again, and the writes
  to \<^verbatim>\<open>tx_fifo\<close> are the fifteen bytes \<^verbatim>\<open>H e l l o , SPACE W o r l d ! CR LF\<close>, \<open>n\<close>
  times over, and nothing else.
\<close>

theorem main_resets_once_then_greets_forever:
  assumes "\<forall>t. \<not> tx_full (dev t)"
  shows "\<exists>s' rest w1 w2 w3. main sc rb dev n s = Some (Inr s') \<and>
           w1 = set_bit 0 (rb (control s)) \<and>
           w2 = set_bit 1 (rb w1) \<and>
           w3 = unset_bit 4 (rb w2) \<and>
           accesses s' =
             accesses s @
               [(clock s, Read CONTROL), (clock s, Write CONTROL w1),
                (clock s, Read CONTROL), (clock s, Write CONTROL w2),
                (clock s, Read CONTROL), (clock s, Write CONTROL w3)] @
               rest \<and>
           writes_to CONTROL rest = [] \<and>
           reads_of CONTROL rest = [] \<and>
           map snd (writes_to TX_FIFO rest) =
             concat (replicate n
               [0x48, 0x65, 0x6C, 0x6C, 0x6F, 0x2C, 0x20, 0x57, 0x6F, 0x72, 0x6C, 0x64, 0x21,
                0x0D, 0x0A])"
proof -
  from main_loop_free [OF assms, of sc n "reset_uartlite rb s"] obtain s' rest where
    "main_loop sc dev n (reset_uartlite rb s) = Some (Inr s')"
    "accesses s' = accesses (reset_uartlite rb s) @ rest"
    "writes_to CONTROL rest = []"
    "reads_of CONTROL rest = []"
    "map snd (writes_to TX_FIFO rest) =
       concat (replicate n
         [0x48, 0x65, 0x6C, 0x6C, 0x6F, 0x2C, 0x20, 0x57, 0x6F, 0x72, 0x6C, 0x64, 0x21,
          0x0D, 0x0A])"
    by blast
  then show ?thesis
    by (simp add: main_def reset_accesses)
qed

text \<open>Two rounds from the starting state, on a write-only \<^verbatim>\<open>control\<close> register that
  reads as zero: the words stored by the reset are 1, 2 and 0.\<close>

theorem main_resets_once_then_greets_forever_witness:
  "(\<forall>t. \<not> tx_full (idle t)) \<and>
   (\<exists>s' rest. main False reads_zero idle 2 power_on = Some (Inr s') \<and>
      accesses s' =
        [(0, Read CONTROL), (0, Write CONTROL 1),
         (0, Read CONTROL), (0, Write CONTROL 2),
         (0, Read CONTROL), (0, Write CONTROL 0)] @ rest \<and>
      writes_to CONTROL rest = [] \<and>
      reads_of CONTROL rest = [] \<and>
      map snd (writes_to TX_FIFO rest) =
        [0x48, 0x65, 0x6C, 0x6C, 0x6F, 0x2C, 0x20, 0x57, 0x6F, 0x72, 0x6C, 0x64, 0x21,
         0x0D, 0x0A,
         0x48, 0x65, 0x6C, 0x6C, 0x6F, 0x2C, 0x20, 0x57, 0x6F, 0x72, 0x6C, 0x64, 0x21,
         0x0D, 0x0A])"
proof -
  have a: "\<forall>t. \<not> tx_full (idle t)"
    by (simp add: idle_def tx_full_def)
  have r: "replicate 2 x = [x, x]" for x :: "u32 list"
    by (simp add: numeral_2_eq_2)
  have w: "set_bit 0 (0 :: u32) = 1" "set_bit (Suc 0) (0 :: u32) = 2"
    "unset_bit 4 (0 :: u32) = 0"
    by (simp_all add: set_bit_eq_or unset_bit_eq_and_not)
  from main_resets_once_then_greets_forever [OF a, of False reads_zero 2 power_on] a
  show ?thesis
    by (simp add: power_on_def reads_zero_def r w)
qed

section \<open>The error bits\<close>

lemma same_but_errors_bit:
  assumes "same_but_errors dev dev'"
  shows "bit (status (dev t)) 0 = bit (status (dev' t)) 0"
    and "bit (status (dev t)) 3 = bit (status (dev' t)) 3"
proof -
  from assms have eq: "status (dev t) AND 0xFFFFFF1F = status (dev' t) AND 0xFFFFFF1F"
    by (simp add: same_but_errors_def)
  have "bit (status (dev t) AND 0xFFFFFF1F) 0 = bit (status (dev' t) AND 0xFFFFFF1F) 0"
    by (simp only: eq)
  then show "bit (status (dev t)) 0 = bit (status (dev' t)) 0"
    by (simp add: bit_and_iff)
  have "bit (status (dev t) AND 0xFFFFFF1F) 3 = bit (status (dev' t) AND 0xFFFFFF1F) 3"
    by (simp only: eq)
  then show "bit (status (dev t)) 3 = bit (status (dev' t)) 3"
    by (simp add: bit_and_iff)
qed

lemma tx_full_errors: "same_but_errors dev dev' \<Longrightarrow> tx_full (dev t) = tx_full (dev' t)"
  by (simp add: tx_full_def same_but_errors_bit)

lemma rx_valid_errors: "same_but_errors dev dev' \<Longrightarrow> rx_valid (dev t) = rx_valid (dev' t)"
  by (simp add: rx_valid_def same_but_errors_bit)

lemma rx_fifo_errors: "same_but_errors dev dev' \<Longrightarrow> rx_fifo (dev t) = rx_fifo (dev' t)"
  by (simp add: same_but_errors_def)

lemma putc_errors:
  assumes "same_but_errors dev dev'"
  shows "putc_uartlite sc dev c s = putc_uartlite sc dev' c s"
proof (cases "\<exists>k. \<not> tx_full (dev (clock s + k))")
  case True
  then obtain k where k: "\<forall>j<k. tx_full (dev (clock s + j))" "\<not> tx_full (dev (clock s + k))"
    using first_nat [of "\<lambda>k. \<not> tx_full (dev (clock s + k))"] by auto
  then have "\<forall>j<k. tx_full (dev' (clock s + j))" "\<not> tx_full (dev' (clock s + k))"
    using tx_full_errors [OF assms] by simp_all
  with k show ?thesis
    by (simp add: putc_returns)
next
  case False
  then have "putc_uartlite sc dev c s = None"
    using putc_Some_first [of sc dev c s] by (cases "putc_uartlite sc dev c s") auto
  moreover from False have "\<not> (\<exists>k. \<not> tx_full (dev' (clock s + k)))"
    using tx_full_errors [OF assms] by simp
  then have "putc_uartlite sc dev' c s = None"
    using putc_Some_first [of sc dev' c s] by (cases "putc_uartlite sc dev' c s") auto
  ultimately show ?thesis by simp
qed

lemma getc_errors:
  assumes "same_but_errors dev dev'"
  shows "getc_uartlite dev s = getc_uartlite dev' s"
proof (cases "\<exists>k. rx_valid (dev (clock s + k))")
  case True
  then obtain k where k: "\<forall>j<k. \<not> rx_valid (dev (clock s + j))" "rx_valid (dev (clock s + k))"
    using first_nat [of "\<lambda>k. rx_valid (dev (clock s + k))"] by auto
  then have "\<forall>j<k. \<not> rx_valid (dev' (clock s + j))" "rx_valid (dev' (clock s + k))"
    using rx_valid_errors [OF assms] by simp_all
  with k show ?thesis
    by (simp add: getc_returns rx_fifo_errors [OF assms])
next
  case False
  then have "getc_uartlite dev s = None"
    using getc_Some_first [of dev s] by (cases "getc_uartlite dev s") auto
  moreover from False have "\<not> (\<exists>k. rx_valid (dev' (clock s + k)))"
    using rx_valid_errors [OF assms] by simp
  then have "getc_uartlite dev' s = None"
    using getc_Some_first [of dev' s] by (cases "getc_uartlite dev' s") auto
  ultimately show ?thesis by simp
qed

lemma puts_errors:
  "same_but_errors dev dev' \<Longrightarrow> puts_uartlite sc dev bs s = puts_uartlite sc dev' bs s"
  by (induction bs arbitrary: s) (simp_all add: putc_errors split: option.splits)

lemma main_loop_errors:
  "same_but_errors dev dev' \<Longrightarrow> main_loop sc dev n s = main_loop sc dev' n s"
  by (induction n arbitrary: s) (simp_all add: puts_errors split: option.splits sum.splits)

text \<open>
  C8. \<open>reset_uartlite\<close> takes no device trace: it loads \<^verbatim>\<open>control\<close> only, never
  \<^verbatim>\<open>status\<close>. For two traces that differ at most in bits 5, 6 and 7 of \<^verbatim>\<open>status\<close>, each of
  \<open>putc_uartlite\<close>, \<open>getc_uartlite\<close>, \<open>puts_uartlite\<close> and \<open>main\<close> gives the same
  outcome on both: it returns on both or on neither, with the same value, the same
  registers and the same accesses at the same steps.
\<close>

theorem error_bits_never_read:
  assumes "same_but_errors dev dev'"
  shows "putc_uartlite sc dev c s = putc_uartlite sc dev' c s \<and>
         getc_uartlite dev s = getc_uartlite dev' s \<and>
         puts_uartlite sc dev bs s = puts_uartlite sc dev' bs s \<and>
         main sc rb dev n s = main sc rb dev' n s"
  using assms by (simp add: putc_errors getc_errors puts_errors main_loop_errors main_def)

text \<open>The trace that is full for two steps, and the same with error bits raised.\<close>

theorem error_bits_never_read_witness:
  "same_but_errors busy_twice line_errors \<and>
   status (busy_twice 0) \<noteq> status (line_errors 0) \<and>
   putc_uartlite False busy_twice 0x41 power_on = putc_uartlite False line_errors 0x41 power_on \<and>
   getc_uartlite busy_twice power_on = getc_uartlite line_errors power_on \<and>
   puts_uartlite False busy_twice hello_world power_on =
     puts_uartlite False line_errors hello_world power_on \<and>
   main False reads_zero busy_twice 2 power_on = main False reads_zero line_errors 2 power_on"
proof -
  have a: "same_but_errors busy_twice line_errors"
    by (simp add: same_but_errors_def busy_twice_def line_errors_def)
  have "status (busy_twice 0) \<noteq> status (line_errors 0)"
    by (simp add: busy_twice_def line_errors_def)
  with error_bits_never_read [OF a, of False "0x41" power_on hello_world reads_zero 2] a
  show ?thesis by simp
qed

end
